theory Spec2Isabelle
  imports Complex_Main
begin

section \<open>The peak detector of \<^verbatim>\<open>peakdetect\<close>, embedded\<close>

text \<open>
  The embedding follows the current version of the package (the one with the
  \<^verbatim>\<open>movingMeanStdDev\<close> sliding-window estimator). A \<^verbatim>\<open>float64\<close> is a real number:
  arithmetic is exact. The one operation of the code that leaves the finite reals on real
  inputs is \<^verbatim>\<open>math.Sqrt\<close> of a negative number, which Go defines as NaN; a standard
  deviation is therefore a \<open>real option\<close>, with \<open>None\<close> for NaN. An \<^verbatim>\<open>uint\<close> is a
  natural number; the only increment that the code can carry past a slice length is the one
  of \<^verbatim>\<open>peakDetector.index\<close>, which is written with its wrap-around at 64 bits. The
  increment of \<^verbatim>\<open>movingMeanStdDev.index\<close> follows a successful bounds check on a slice, whose
  length fits a signed machine integer, and cannot wrap.

  A panic ends the call: the result is \<open>Inl\<close> of the panic and carries no state. The
  error that \<^verbatim>\<open>Initialize\<close> returns is an ordinary result, returned together with the
  state the call leaves behind.
\<close>

subsection \<open>Data\<close>

datatype Signal = SignalNegative | SignalNeutral | SignalPositive

datatype error = ErrInvalidInitialValues | Errorf_w string error

text \<open>\<^verbatim>\<open>errors.Is\<close> of the standard library, on the chain that \<^verbatim>\<open>%w\<close> builds.\<close>

fun errors_Is :: "error \<Rightarrow> error \<Rightarrow> bool" where
  "errors_Is (Errorf_w msg inner) target =
     (Errorf_w msg inner = target \<or> errors_Is inner target)"
| "errors_Is ErrInvalidInitialValues target = (ErrInvalidInitialValues = target)"

datatype go_panic = IndexOutOfRange

record movingMeanStdDev =
  cache :: "real list"
  cacheLen :: real
  cacheLenU :: nat
  m_index :: nat
  m_prevMean :: real
  prevVariance :: real

record peakDetector =
  index :: nat
  influence :: real
  lag :: nat
  movingMeanStdDev :: movingMeanStdDev
  prevMean :: real
  prevStdDev :: "real option"
  prevValue :: real
  threshold :: real

text \<open>\<^verbatim>\<open>math.Sqrt\<close>: NaN on a negative argument.\<close>

definition go_sqrt :: "real \<Rightarrow> real option" where
  "go_sqrt x = (if x < 0 then None else Some (sqrt x))"

text \<open>\<^verbatim>\<open>NewPeakDetector\<close>: every field has its zero value.\<close>

definition NewPeakDetector :: peakDetector where
  "NewPeakDetector =
     \<lparr>index = 0, influence = 0, lag = 0,
      movingMeanStdDev =
        \<lparr>cache = [], cacheLen = 0, cacheLenU = 0, m_index = 0, m_prevMean = 0,
         prevVariance = 0\<rparr>,
      prevMean = 0, prevStdDev = Some 0, prevValue = 0, threshold = 0\<rparr>"

subsection \<open>The sliding-window estimator\<close>

text \<open>
  The loop of \<^verbatim>\<open>movingMeanStdDev.initialize\<close>, from counter \<open>i\<close> on, with the
  three variables it updates. It returns \<open>(mean, sumOfSquares)\<close>.
\<close>

function welford_loop ::
  "real list \<Rightarrow> nat \<Rightarrow> nat \<Rightarrow> real \<Rightarrow> real \<Rightarrow> real \<Rightarrow> go_panic + (real \<times> real)" where
  "welford_loop initialValues n i mean prevMean' sumOfSquares =
     (if i \<le> n then
        (if i - 1 < length initialValues then
           (let value = initialValues ! (i - 1);
                mean' = prevMean' + (value - prevMean') / real i;
                sumOfSquares' = sumOfSquares + (value - prevMean') * (value - mean')
            in welford_loop initialValues n (i + 1) mean' mean' sumOfSquares')
         else Inl IndexOutOfRange)
      else Inr (mean, sumOfSquares))"
  by pat_completeness auto
termination
  by (relation "measure (\<lambda>(vs, n, i, m, pm, s). n + 1 - i)") auto

declare welford_loop.simps [simp del]

text \<open>
  \<^verbatim>\<open>movingMeanStdDev.initialize\<close>. The cursor \<open>m_index\<close> is not assigned. On an empty
  slice \<^verbatim>\<open>initialValues[0]\<close> panics.
\<close>

definition m_initialize ::
  "movingMeanStdDev \<Rightarrow> real list \<Rightarrow> go_panic + ((real \<times> real option) \<times> movingMeanStdDev)" where
  "m_initialize m initialValues =
     (let m1 = m\<lparr>cacheLenU := length initialValues\<rparr>;
          m2 = m1\<lparr>cacheLen := real (cacheLenU m1)\<rparr>;
          m3 = m2\<lparr>cache := take (cacheLenU m2) initialValues\<rparr>
      in if initialValues = [] then Inl IndexOutOfRange
         else
           (let mean = initialValues ! 0 in
            case welford_loop initialValues (cacheLenU m3) 2 mean mean 0 of
              Inl e \<Rightarrow> Inl e
            | Inr (mean', sumOfSquares) \<Rightarrow>
                (let m4 = m3\<lparr>m_prevMean := mean'\<rparr>;
                     m5 = m4\<lparr>prevVariance := sumOfSquares / cacheLen m4\<rparr>
                 in Inr ((mean', go_sqrt (prevVariance m5)), m5))))"

text \<open>
  \<^verbatim>\<open>movingMeanStdDev.next\<close>. Reading \<^verbatim>\<open>m.cache[m.index]\<close> panics when the cursor is
  outside the slice.
\<close>

definition m_next ::
  "movingMeanStdDev \<Rightarrow> real \<Rightarrow> go_panic + ((real \<times> real option) \<times> movingMeanStdDev)" where
  "m_next m value =
     (if m_index m < length (cache m) then
        (let outOfWindow = cache m ! m_index m;
             m1 = m\<lparr>cache := (cache m)[m_index m := value]\<rparr>;
             m2 = m1\<lparr>m_index := m_index m1 + 1\<rparr>;
             m3 = (if m_index m2 = cacheLenU m2 then m2\<lparr>m_index := 0\<rparr> else m2);
             newMean = m_prevMean m3 + (value - outOfWindow) / cacheLen m3;
             m4 = m3\<lparr>prevVariance := prevVariance m3
                    + (value - newMean + outOfWindow - m_prevMean m3) * (value - outOfWindow)
                      / cacheLen m3\<rparr>;
             m5 = m4\<lparr>m_prevMean := newMean\<rparr>
         in Inr ((m_prevMean m5, go_sqrt (prevVariance m5)), m5))
      else Inl IndexOutOfRange)"

subsection \<open>The detector\<close>

text \<open>
  \<^verbatim>\<open>peakDetector.Initialize\<close>. The assignment of \<open>lag\<close> precedes the test of the
  length, so the state returned with the error already holds it.
\<close>

definition Initialize ::
  "peakDetector \<Rightarrow> real \<Rightarrow> real \<Rightarrow> real list \<Rightarrow> go_panic + (error option \<times> peakDetector)" where
  "Initialize p influence' threshold' initialValues =
     (let p1 = p\<lparr>lag := length initialValues\<rparr> in
      if lag p1 = 0 then
        Inr (Some (Errorf_w
          ''the length of the initial values is zero, the length is used as the lag for the algorithm: ''
          ErrInvalidInitialValues), p1)
      else
        (let p2 = p1\<lparr>influence := influence'\<rparr>;
             p3 = p2\<lparr>threshold := threshold'\<rparr>
         in case m_initialize (movingMeanStdDev p3) initialValues of
              Inl e \<Rightarrow> Inl e
            | Inr ((mean, stdDev), m') \<Rightarrow>
                (let p4 = p3\<lparr>movingMeanStdDev := m', prevMean := mean, prevStdDev := stdDev\<rparr>
                 in if lag p4 - 1 < length initialValues
                    then Inr (None, p4\<lparr>prevValue := initialValues ! (lag p4 - 1)\<rparr>)
                    else Inl IndexOutOfRange)))"

text \<open>
  \<^verbatim>\<open>peakDetector.Next\<close>. A comparison with NaN is false, so a NaN standard
  deviation gives the neutral branch.
\<close>

definition Next :: "peakDetector \<Rightarrow> real \<Rightarrow> go_panic + (Signal \<times> peakDetector)" where
  "Next p value =
     (let p1 = p\<lparr>index := (index p + 1) mod 2 ^ 64\<rparr>;
          p2 = (if index p1 = lag p1 then p1\<lparr>index := 0\<rparr> else p1);
          exceeds = (case prevStdDev p2 of
                       None \<Rightarrow> False
                     | Some sd \<Rightarrow> \<bar>value - prevMean p2\<bar> > threshold p2 * sd);
          signal = (if exceeds
                    then (if value > prevMean p2 then SignalPositive else SignalNegative)
                    else SignalNeutral);
          value' = (if exceeds
                    then influence p2 * value + (1 - influence p2) * prevValue p2
                    else value)
      in case m_next (movingMeanStdDev p2) value' of
           Inl e \<Rightarrow> Inl e
         | Inr ((mean, stdDev), m') \<Rightarrow>
             Inr (signal,
                  p2\<lparr>movingMeanStdDev := m', prevMean := mean, prevStdDev := stdDev,
                     prevValue := value'\<rparr>))"

text \<open>
  \<^verbatim>\<open>peakDetector.NextBatch\<close>: the slice of signals is allocated at the length of the
  input, filled with the zero value, and written by index.
\<close>

fun NextBatch_loop ::
  "peakDetector \<Rightarrow> Signal list \<Rightarrow> nat \<Rightarrow> real list \<Rightarrow> go_panic + (Signal list \<times> peakDetector)" where
  "NextBatch_loop p signals i [] = Inr (signals, p)"
| "NextBatch_loop p signals i (v # values) =
     (case Next p v of
        Inl e \<Rightarrow> Inl e
      | Inr (s, p') \<Rightarrow>
          (if i < length signals then NextBatch_loop p' (signals[i := s]) (i + 1) values
           else Inl IndexOutOfRange))"

definition NextBatch :: "peakDetector \<Rightarrow> real list \<Rightarrow> go_panic + (Signal list \<times> peakDetector)" where
  "NextBatch p values =
     NextBatch_loop p (replicate (length values) SignalNeutral) 0 values"

section \<open>Specification-side notions\<close>

subsection \<open>The statistics of a window, by their defining formulas\<close>

definition mean_of :: "real list \<Rightarrow> real" where
  "mean_of xs = sum_list xs / real (length xs)"

definition pvariance :: "real list \<Rightarrow> real" where
  "pvariance xs = (\<Sum>x\<leftarrow>xs. (x - mean_of xs)\<^sup>2) / real (length xs)"

subsection \<open>Sequences of calls\<close>

text \<open>A finite sequence of \<^verbatim>\<open>next\<close> calls on the estimator, one per value.\<close>

fun m_updates :: "movingMeanStdDev \<Rightarrow> real list \<Rightarrow> go_panic + movingMeanStdDev" where
  "m_updates m [] = Inr m"
| "m_updates m (x # xs) =
     (case m_next m x of Inl e \<Rightarrow> Inl e | Inr (r, m') \<Rightarrow> m_updates m' xs)"

text \<open>
  Sequential calls of \<^verbatim>\<open>Next\<close>, one per value, collecting the signals in order: what
  the batch operation is specified to agree with.
\<close>

fun process_each :: "peakDetector \<Rightarrow> real list \<Rightarrow> go_panic + (Signal list \<times> peakDetector)" where
  "process_each p [] = Inr ([], p)"
| "process_each p (v # values) =
     (case Next p v of
        Inl e \<Rightarrow> Inl e
      | Inr (s, p') \<Rightarrow>
          (case process_each p' values of
             Inl e \<Rightarrow> Inl e
           | Inr (ss, p'') \<Rightarrow> Inr (s # ss, p'')))"

subsection \<open>The invariant of a usable detector\<close>

text \<open>
  The estimator's cursor lies inside its window, its two lengths are the window's, and
  its mean and variance are those of the window's contents.
\<close>

definition stats_ok :: "movingMeanStdDev \<Rightarrow> bool" where
  "stats_ok m \<longleftrightarrow>
     m_index m < length (cache m) \<and>
     cacheLenU m = length (cache m) \<and>
     cacheLen m = real (length (cache m)) \<and>
     m_prevMean m = mean_of (cache m) \<and>
     prevVariance m = pvariance (cache m)"

text \<open>
  The detector is ready when its estimator is in order and the mean and standard
  deviation it keeps for the next comparison are the estimator's. A successful
  \<^verbatim>\<open>Initialize\<close> of a new detector makes it ready, and \<^verbatim>\<open>Next\<close> keeps it ready
  (lemmas \<open>Ready_Initialize\<close> and \<open>Ready_Next\<close> below). A detector that is initialized
  a second time is ready as long as the cursor it has kept lies inside the new window.
\<close>

definition Ready :: "peakDetector \<Rightarrow> bool" where
  "Ready p \<longleftrightarrow>
     stats_ok (movingMeanStdDev p) \<and>
     prevMean p = m_prevMean (movingMeanStdDev p) \<and>
     prevStdDev p = go_sqrt (prevVariance (movingMeanStdDev p))"

subsection \<open>Negation of a stream\<close>

fun opposite :: "Signal \<Rightarrow> Signal" where
  "opposite SignalPositive = SignalNegative"
| "opposite SignalNegative = SignalPositive"
| "opposite SignalNeutral = SignalNeutral"

text \<open>The state of a detector that has seen the negated values.\<close>

definition mirror_m :: "movingMeanStdDev \<Rightarrow> movingMeanStdDev" where
  "mirror_m m = m\<lparr>cache := map uminus (cache m), m_prevMean := - m_prevMean m\<rparr>"

definition mirror :: "peakDetector \<Rightarrow> peakDetector" where
  "mirror p = p\<lparr>movingMeanStdDev := mirror_m (movingMeanStdDev p),
                prevMean := - prevMean p, prevValue := - prevValue p\<rparr>"

subsection \<open>States of the worked scenarios\<close>

text \<open>The detector seeded with \<open>[0, 1, 0, -1, 0]\<close>, influence 0 and threshold 5.\<close>

definition seeded5 :: peakDetector where
  "seeded5 =
     \<lparr>index = 0, influence = 0, lag = 5,
      movingMeanStdDev =
        \<lparr>cache = [0, 1, 0, - 1, 0], cacheLen = 5, cacheLenU = 5, m_index = 0,
         m_prevMean = 0, prevVariance = 2 / 5\<rparr>,
      prevMean = 0, prevStdDev = Some (sqrt (2 / 5)), prevValue = 0, threshold = 5\<rparr>"

text \<open>
  An estimator over the one-value window \<open>[1]\<close> whose stored variance lies slightly
  below zero, as accumulated rounding can leave it.
\<close>

definition drifted :: movingMeanStdDev where
  "drifted =
     \<lparr>cache = [1], cacheLen = 1, cacheLenU = 1, m_index = 0, m_prevMean = 1,
      prevVariance = - (1 / 4)\<rparr>"

text \<open>
  The detector seeded with \<open>[1, 2, 3]\<close>, influence 0 and threshold 1, and the state it
  is in after the value 100.
\<close>

definition seeded123 :: peakDetector where
  "seeded123 =
     \<lparr>index = 0, influence = 0, lag = 3,
      movingMeanStdDev =
        \<lparr>cache = [1, 2, 3], cacheLen = 3, cacheLenU = 3, m_index = 0,
         m_prevMean = 2, prevVariance = 2 / 3\<rparr>,
      prevMean = 2, prevStdDev = Some (sqrt (2 / 3)), prevValue = 3, threshold = 1\<rparr>"

definition after123 :: peakDetector where
  "after123 =
     \<lparr>index = 1, influence = 0, lag = 3,
      movingMeanStdDev =
        \<lparr>cache = [3, 2, 3], cacheLen = 3, cacheLenU = 3, m_index = 1,
         m_prevMean = 8 / 3, prevVariance = 2 / 9\<rparr>,
      prevMean = 8 / 3, prevStdDev = Some (sqrt (2 / 9)), prevValue = 3, threshold = 1\<rparr>"

text \<open>
  The detectors seeded with \<open>[0, 2]\<close> and with \<open>[0, -2]\<close>, influence 0 and the
  negative threshold \<open>-1\<close>.
\<close>

definition tie_up :: peakDetector where
  "tie_up =
     \<lparr>index = 0, influence = 0, lag = 2,
      movingMeanStdDev =
        \<lparr>cache = [0, 2], cacheLen = 2, cacheLenU = 2, m_index = 0,
         m_prevMean = 1, prevVariance = 1\<rparr>,
      prevMean = 1, prevStdDev = Some 1, prevValue = 2, threshold = - 1\<rparr>"

definition tie_down :: peakDetector where
  "tie_down =
     \<lparr>index = 0, influence = 0, lag = 2,
      movingMeanStdDev =
        \<lparr>cache = [0, - 2], cacheLen = 2, cacheLenU = 2, m_index = 0,
         m_prevMean = - 1, prevVariance = 1\<rparr>,
      prevMean = - 1, prevStdDev = Some 1, prevValue = - 2, threshold = - 1\<rparr>"

section \<open>Auxiliary facts\<close>

subsection \<open>Sums and the two recurrences\<close>

lemma sumsq_dev_expand:
  "(\<Sum>x\<leftarrow>xs. (x - c)\<^sup>2) = (\<Sum>x\<leftarrow>xs. x\<^sup>2) - 2 * c * sum_list xs + real (length xs) * c\<^sup>2"
  by (induction xs) (simp_all add: power2_eq_square algebra_simps)

lemma pvariance_alt:
  assumes "xs \<noteq> []"
  shows "pvariance xs = (\<Sum>x\<leftarrow>xs. x\<^sup>2) / real (length xs) - (mean_of xs)\<^sup>2"
proof -
  define n where "n = real (length xs)"
  have n: "n \<noteq> 0" using assms by (simp add: n_def)
  define mu where "mu = mean_of xs"
  have T: "sum_list xs = n * mu" using n by (simp add: mu_def mean_of_def n_def)
  have "pvariance xs = ((\<Sum>x\<leftarrow>xs. x\<^sup>2) - 2 * mu * (n * mu) + n * mu\<^sup>2) / n"
    by (simp add: pvariance_def sumsq_dev_expand T mu_def [symmetric] n_def [symmetric])
  also have "\<dots> = (\<Sum>x\<leftarrow>xs. x\<^sup>2) / n - mu\<^sup>2"
    using n by (simp add: field_simps power2_eq_square)
  finally show ?thesis by (simp add: n_def mu_def)
qed

lemma pvariance_nonneg: "0 \<le> pvariance xs"
  unfolding pvariance_def
  by (intro divide_nonneg_nonneg sum_list_nonneg) auto

lemma sum_list_upd:
  "i < length xs \<Longrightarrow> sum_list (xs[i := v]) = sum_list xs - xs ! i + (v::real)"
proof (induction xs arbitrary: i)
  case Nil then show ?case by simp
next
  case (Cons x xs) then show ?case by (cases i) simp_all
qed

lemma sum_list_sq_upd:
  "i < length xs \<Longrightarrow> (\<Sum>x\<leftarrow>xs[i := v]. x\<^sup>2) = (\<Sum>x\<leftarrow>xs. x\<^sup>2) - (xs ! i)\<^sup>2 + (v::real)\<^sup>2"
  using sum_list_upd [of i "map (\<lambda>x. x\<^sup>2) xs" "v\<^sup>2"] by (simp add: map_update)

lemma welford_poly:
  fixes p e k Q :: real
  shows "(Q - 2 * p * (k * p) + k * p\<^sup>2) + ((k + 1) * e) * ((k + 1) * e - e)
       = (Q + (p + (k + 1) * e)\<^sup>2) - 2 * (p + e) * ((k + 1) * (p + e)) + (k + 1) * (p + e)\<^sup>2"
  by (simp add: power2_eq_square algebra_simps)

lemma slide_poly:
  fixes mean d old W var :: real
  shows "W * (var + ((old + W * d) - (mean + d) + old - mean) * d + (mean + d)\<^sup>2)
       = W * (var + mean\<^sup>2) - old\<^sup>2 + (old + W * d)\<^sup>2"
  by (simp add: power2_eq_square algebra_simps)

lemma slide_alg_var:
  fixes Q v old W var mean :: real
  assumes W: "0 < W" and var: "var = Q / W - mean\<^sup>2"
  shows "var + (v - (mean + (v - old) / W) + old - mean) * (v - old) / W
       = (Q - old\<^sup>2 + v\<^sup>2) / W - (mean + (v - old) / W)\<^sup>2"
proof -
  define d where "d = (v - old) / W"
  have v: "v = old + W * d" using W by (simp add: d_def)
  have Q: "Q = W * (var + mean\<^sup>2)" using W var by simp
  have "W * (var + (v - (mean + d) + old - mean) * d + (mean + d)\<^sup>2) = Q - old\<^sup>2 + v\<^sup>2"
    unfolding v Q by (rule slide_poly)
  then have "var + (v - (mean + d) + old - mean) * d + (mean + d)\<^sup>2 = (Q - old\<^sup>2 + v\<^sup>2) / W"
    using W by (simp add: field_simps)
  then show ?thesis by (simp add: d_def)
qed

lemma welford_alg:
  fixes T Q v k pm :: real
  assumes k: "0 < k" and pm: "pm = T / k"
  defines "m' \<equiv> pm + (v - pm) / (k + 1)"
  shows "m' = (T + v) / (k + 1)"
    and "(Q - 2 * pm * T + k * pm\<^sup>2) + (v - pm) * (v - m')
       = (Q + v\<^sup>2) - 2 * m' * (T + v) + (k + 1) * m'\<^sup>2"
proof -
  define e where "e = (v - pm) / (k + 1)"
  have k1: "k + 1 \<noteq> 0" using k by simp
  have v: "v = pm + (k + 1) * e" using k1 by (simp add: e_def)
  have T: "T = k * pm" using k pm by simp
  have m': "m' = pm + e" by (simp add: m'_def e_def)
  have "T + v = (k + 1) * (pm + e)" unfolding T v by (simp add: algebra_simps)
  then show "m' = (T + v) / (k + 1)" using k1 m' by simp
  show "(Q - 2 * pm * T + k * pm\<^sup>2) + (v - pm) * (v - m')
       = (Q + v\<^sup>2) - 2 * m' * (T + v) + (k + 1) * m'\<^sup>2"
    unfolding m' T v by (simp add: power2_eq_square algebra_simps)
qed

lemma welford_loop_correct:
  assumes "2 \<le> i" "i \<le> Suc n" "n = length vs"
    and "pm = mean_of (take (i - 1) vs)"
    and "S = (\<Sum>x\<leftarrow>take (i - 1) vs. (x - pm)\<^sup>2)"
    and "m = pm"
  shows "welford_loop vs n i m pm S = Inr (mean_of vs, (\<Sum>x\<leftarrow>vs. (x - mean_of vs)\<^sup>2))"
  using assms
proof (induction vs n i m pm S rule: welford_loop.induct)
  case (1 vs n i m pm S)
  show ?case
  proof (cases "i \<le> n")
    case False
    with "1.prems" have "i - 1 = length vs" by simp
    with False "1.prems" show ?thesis by (simp add: welford_loop.simps)
  next
    case True
    with "1.prems" have inr: "i - 1 < length vs" by simp
    define k where "k = i - 1"
    have k: "0 < k" "i = Suc k" "k < length vs" using "1.prems" inr by (simp_all add: k_def)
    define v where "v = vs ! k"
    define T where "T = sum_list (take k vs)"
    define Q where "Q = (\<Sum>x\<leftarrow>take k vs. x\<^sup>2)"
    define m' where "m' = pm + (v - pm) / real (Suc k)"
    have tk: "take (Suc k) vs = take k vs @ [v]"
      using k by (simp add: take_Suc_conv_app_nth v_def)
    have lk: "length (take k vs) = k" using k by simp
    have p4: "pm = mean_of (take k vs)" using "1.prems"(4) unfolding k_def .
    have p5: "S = (\<Sum>x\<leftarrow>take k vs. (x - pm)\<^sup>2)" using "1.prems"(5) unfolding k_def .
    have pm: "pm = T / real k" using p4 lk by (simp add: mean_of_def T_def)
    have rk: "0 < real k" using k by simp
    have rs: "real k + 1 = real (Suc k)" by simp
    note alg1 = welford_alg(1) [OF rk pm, of v, unfolded rs, folded m'_def]
    note alg2 = welford_alg(2) [OF rk pm, of Q v, unfolded rs, folded m'_def]
    have "mean_of (take (Suc k) vs) = (T + v) / real (Suc k)"
      unfolding mean_of_def tk using lk by (simp add: T_def del: of_nat_Suc)
    with alg1 have m'_mean: "m' = mean_of (take (Suc k) vs)" by simp
    have S: "S = Q - 2 * pm * T + real k * pm\<^sup>2"
      using p5 lk by (simp add: sumsq_dev_expand Q_def T_def)
    have "(\<Sum>x\<leftarrow>take (Suc k) vs. (x - m')\<^sup>2)
            = (Q + v\<^sup>2) - 2 * m' * (T + v) + real (Suc k) * m'\<^sup>2"
      unfolding sumsq_dev_expand tk using lk by (simp add: Q_def T_def del: of_nat_Suc)
    with alg2 have S': "S + (v - pm) * (v - m') = (\<Sum>x\<leftarrow>take (Suc k) vs. (x - m')\<^sup>2)"
      by (simp add: S)
    have m'_code: "m' = pm + (v - pm) / real i" using k(2) by (simp add: m'_def)
    have "welford_loop vs n i m pm S = welford_loop vs n (i + 1) m' m' (S + (v - pm) * (v - m'))"
      using True inr by (subst welford_loop.simps) (simp add: Let_def m'_code v_def k_def)
    also have "\<dots> = Inr (mean_of vs, (\<Sum>x\<leftarrow>vs. (x - mean_of vs)\<^sup>2))"
    proof (rule "1.IH" [OF True inr])
      show "v = vs ! (i - 1)" by (simp add: v_def k_def)
      show "m' = pm + (v - pm) / real i" by (rule m'_code)
      show "S + (v - pm) * (v - m') = S + (v - pm) * (v - m')" ..
      show "2 \<le> i + 1" using k by simp
      show "i + 1 \<le> Suc n" using True by simp
      show "n = length vs" by fact
      show "m' = mean_of (take (i + 1 - 1) vs)" using m'_mean k by simp
      show "S + (v - pm) * (v - m') = (\<Sum>x\<leftarrow>take (i + 1 - 1) vs. (x - m')\<^sup>2)"
        using S' k by simp
      show "m' = m'" ..
    qed
    finally show ?thesis .
  qed
qed

subsection \<open>The estimator in closed form\<close>

lemma go_sqrt_pvariance: "go_sqrt (pvariance xs) = Some (sqrt (pvariance xs))"
  using pvariance_nonneg [of xs] by (simp add: go_sqrt_def)

lemma m_initialize_eq:
  assumes "vs \<noteq> []"
  shows "m_initialize m vs =
           Inr ((mean_of vs, go_sqrt (pvariance vs)),
                m\<lparr>cacheLenU := length vs, cacheLen := real (length vs), cache := vs,
                  m_prevMean := mean_of vs, prevVariance := pvariance vs\<rparr>)"
proof -
  obtain x xs where vs: "vs = x # xs" using assms by (cases vs) auto
  have loop: "welford_loop vs (length vs) 2 (vs ! 0) (vs ! 0) 0
                = Inr (mean_of vs, (\<Sum>x\<leftarrow>vs. (x - mean_of vs)\<^sup>2))"
    by (rule welford_loop_correct) (simp_all add: vs mean_of_def)
  show ?thesis
    using assms by (simp add: m_initialize_def Let_def loop pvariance_def)
qed

lemma mean_of_update:
  assumes "i < length xs"
  shows "mean_of (xs[i := v]) = mean_of xs + (v - xs ! i) / real (length xs)"
proof -
  have "sum_list (xs[i := v]) = sum_list xs + (v - xs ! i)"
    using sum_list_upd [OF assms, of v] by simp
  then show ?thesis
    by (simp only: mean_of_def length_list_update add_divide_distrib)
qed

lemma pvariance_update:
  assumes i: "i < length xs"
  shows "pvariance (xs[i := v]) =
           pvariance xs
           + (v - (mean_of xs + (v - xs ! i) / real (length xs)) + xs ! i - mean_of xs)
             * (v - xs ! i) / real (length xs)"
proof -
  have ne1: "xs \<noteq> []" using i by auto
  have ne2: "xs[i := v] \<noteq> []" using ne1 by simp
  have W: "0 < real (length xs)" using ne1 by simp
  have "pvariance (xs[i := v]) =
          ((\<Sum>x\<leftarrow>xs. x\<^sup>2) - (xs ! i)\<^sup>2 + v\<^sup>2) / real (length xs)
          - (mean_of xs + (v - xs ! i) / real (length xs))\<^sup>2"
    by (simp only: pvariance_alt [OF ne2] length_list_update sum_list_sq_upd [OF i]
        mean_of_update [OF i])
  also have "\<dots> = pvariance xs
           + (v - (mean_of xs + (v - xs ! i) / real (length xs)) + xs ! i - mean_of xs)
             * (v - xs ! i) / real (length xs)"
    by (rule slide_alg_var [symmetric, OF W pvariance_alt [OF ne1]])
  finally show ?thesis .
qed

lemma m_next_eq:
  assumes "stats_ok m"
  shows "m_next m v =
           Inr ((mean_of ((cache m)[m_index m := v]),
                 Some (sqrt (pvariance ((cache m)[m_index m := v])))),
                m\<lparr>cache := (cache m)[m_index m := v],
                  m_index := (if m_index m + 1 = length (cache m) then 0 else m_index m + 1),
                  m_prevMean := mean_of ((cache m)[m_index m := v]),
                  prevVariance := pvariance ((cache m)[m_index m := v])\<rparr>)"
proof -
  have i: "m_index m < length (cache m)" using assms by (simp add: stats_ok_def)
  have f: "cacheLen m = real (length (cache m))" "m_prevMean m = mean_of (cache m)"
    "prevVariance m = pvariance (cache m)" "cacheLenU m = length (cache m)"
    using assms by (simp_all add: stats_ok_def)
  define old where "old = cache m ! m_index m"
  define W where "W = cacheLen m"
  define newMean where "newMean = m_prevMean m + (v - old) / W"
  define var' where
    "var' = prevVariance m + (v - newMean + old - m_prevMean m) * (v - old) / W"
  have nm: "newMean = mean_of ((cache m)[m_index m := v])"
    unfolding newMean_def old_def W_def f mean_of_update [OF i] ..
  have vr: "var' = pvariance ((cache m)[m_index m := v])"
    unfolding var'_def newMean_def old_def W_def f pvariance_update [OF i] ..
  have "m_next m v =
          Inr ((newMean, go_sqrt var'),
               m\<lparr>cache := (cache m)[m_index m := v],
                 m_index := (if m_index m + 1 = length (cache m) then 0 else m_index m + 1),
                 m_prevMean := newMean, prevVariance := var'\<rparr>)"
    using i by (simp add: m_next_def Let_def newMean_def var'_def old_def W_def f(4))
  then show ?thesis unfolding nm vr go_sqrt_pvariance .
qed

lemma stats_ok_m_next:
  assumes "stats_ok m" "m_next m v = Inr (r, m')"
  shows "stats_ok m'"
  using assms(2) assms(1) unfolding m_next_eq [OF assms(1)]
  by (auto simp: stats_ok_def)

lemma stats_ok_m_initialize:
  assumes "vs \<noteq> []" "m_index m < length vs" "m_initialize m vs = Inr (r, m')"
  shows "stats_ok m'"
  using assms(3) assms(1,2) unfolding m_initialize_eq [OF assms(1)]
  by (auto simp: stats_ok_def)

subsection \<open>The detector in closed form\<close>

lemma Initialize_empty:
  "Initialize p i t [] =
     Inr (Some (Errorf_w
       ''the length of the initial values is zero, the length is used as the lag for the algorithm: ''
       ErrInvalidInitialValues), p\<lparr>lag := 0\<rparr>)"
  by (simp add: Initialize_def)

lemma Initialize_nonempty:
  assumes "vs \<noteq> []"
  shows "Initialize p i t vs =
     Inr (None,
          p\<lparr>lag := length vs, influence := i, threshold := t,
            movingMeanStdDev :=
              (movingMeanStdDev p)\<lparr>cacheLenU := length vs, cacheLen := real (length vs),
                cache := vs, m_prevMean := mean_of vs, prevVariance := pvariance vs\<rparr>,
            prevMean := mean_of vs, prevStdDev := go_sqrt (pvariance vs),
            prevValue := last vs\<rparr>)"
  using assms
  by (simp add: Initialize_def Let_def m_initialize_eq last_conv_nth)

lemma Ready_Initialize:
  assumes "vs \<noteq> []" "m_index (movingMeanStdDev p) < length vs"
    and "Initialize p i t vs = Inr (e, p')"
  shows "Ready p'"
  using assms(3) assms(2) unfolding Initialize_nonempty [OF assms(1)]
  by (auto simp: Ready_def stats_ok_def)

lemma Ready_prevStdDev:
  assumes "Ready p"
  shows "prevStdDev p = Some (sqrt (pvariance (cache (movingMeanStdDev p))))"
    and "prevMean p = mean_of (cache (movingMeanStdDev p))"
  using assms by (simp_all add: Ready_def stats_ok_def go_sqrt_pvariance)

lemma Next_Ready:
  fixes p :: peakDetector and v :: real
  assumes "Ready p"
  defines "m \<equiv> movingMeanStdDev p"
  defines "ex \<equiv> \<bar>v - mean_of (cache m)\<bar> > threshold p * sqrt (pvariance (cache m))"
  defines "value' \<equiv> (if ex then influence p * v + (1 - influence p) * prevValue p else v)"
  defines "c' \<equiv> (cache m)[m_index m := value']"
  shows "Next p v =
    Inr (if ex then (if v > mean_of (cache m) then SignalPositive else SignalNegative)
         else SignalNeutral,
         p\<lparr>index := (if (index p + 1) mod 2 ^ 64 = lag p then 0 else (index p + 1) mod 2 ^ 64),
           movingMeanStdDev :=
             m\<lparr>cache := c',
               m_index := (if m_index m + 1 = length (cache m) then 0 else m_index m + 1),
               m_prevMean := mean_of c', prevVariance := pvariance c'\<rparr>,
           prevMean := mean_of c', prevStdDev := Some (sqrt (pvariance c')),
           prevValue := value'\<rparr>)"
proof -
  have ok: "stats_ok (movingMeanStdDev p)" using assms(1) by (simp add: Ready_def)
  note sd = Ready_prevStdDev [OF assms(1)]
  show ?thesis
    unfolding c'_def value'_def ex_def m_def
    by (simp add: Next_def Let_def sd m_next_eq [OF ok])
qed

lemma Ready_Next:
  assumes "Ready p" "Next p v = Inr (s, p')"
  shows "Ready p'"
proof -
  have ok: "stats_ok (movingMeanStdDev p)" using assms(1) by (simp add: Ready_def)
  then have i: "m_index (movingMeanStdDev p) < length (cache (movingMeanStdDev p))"
    by (simp add: stats_ok_def)
  show ?thesis
    using assms(2) ok i unfolding Next_Ready [OF assms(1)]
    by (auto simp: Ready_def stats_ok_def go_sqrt_pvariance)
qed

lemma Next_total:
  assumes "Ready p"
  shows "\<exists>s p'. Next p v = Inr (s, p') \<and> Ready p'"
proof -
  obtain s p' where "Next p v = Inr (s, p')" unfolding Next_Ready [OF assms] by blast
  then show ?thesis using Ready_Next [OF assms] by blast
qed

subsection \<open>The worked scenarios\<close>

lemma stats_01010: "mean_of [0, 1, 0, - 1, 0] = 0" "pvariance [0, 1, 0, - 1, 0] = 2 / 5"
  by (simp_all add: mean_of_def pvariance_def)

lemma Initialize_seeded5:
  "Initialize NewPeakDetector 0 5 [0, 1, 0, - 1, 0] = Inr (None, seeded5)"
  by (simp add: Initialize_nonempty stats_01010 NewPeakDetector_def seeded5_def go_sqrt_def)

lemma Ready_seeded5: "Ready seeded5"
  by (simp add: Ready_def stats_ok_def seeded5_def stats_01010 go_sqrt_def)

subsection \<open>Sequences of updates\<close>

lemma m_updates_ok:
  assumes "stats_ok m"
  shows "\<exists>m'. m_updates m xs = Inr m' \<and> stats_ok m' \<and> length (cache m') = length (cache m)"
  using assms
proof (induction xs arbitrary: m)
  case Nil
  then show ?case by simp
next
  case (Cons x xs)
  obtain r m1 where step: "m_next m x = Inr (r, m1)"
    unfolding m_next_eq [OF Cons.prems] by blast
  have ok1: "stats_ok m1" by (rule stats_ok_m_next [OF Cons.prems step])
  have len1: "length (cache m1) = length (cache m)"
    using step unfolding m_next_eq [OF Cons.prems] by auto
  from Cons.IH [OF ok1] len1 step show ?case by simp
qed

subsection \<open>The batch operation\<close>

lemma process_each_length:
  "process_each p values = Inr (ss, p') \<Longrightarrow> length ss = length values"
proof (induction "values" arbitrary: p ss)
  case Nil
  then show ?case by simp
next
  case (Cons v vs)
  then show ?case by (auto split: sum.splits prod.splits)
qed

lemma NextBatch_loop_eq:
  assumes "i + length values \<le> length signals"
  shows "NextBatch_loop p signals i values =
           (case process_each p values of
              Inl e \<Rightarrow> Inl e
            | Inr (ss, p') \<Rightarrow>
                Inr (take i signals @ ss @ drop (i + length values) signals, p'))"
  using assms
proof (induction "values" arbitrary: p signals i)
  case Nil
  then show ?case by simp
next
  case (Cons v vs)
  show ?case
  proof (cases "Next p v")
    case (Inl e)
    then show ?thesis by simp
  next
    case (Inr r)
    obtain s p1 where r: "r = (s, p1)" by (cases r)
    have i: "i < length signals" using Cons.prems by simp
    have len: "i + 1 + length vs \<le> length (signals[i := s])" using Cons.prems by simp
    have tk: "take (i + 1) (signals[i := s]) = take i signals @ [s]"
      using i by (simp add: take_Suc_conv_app_nth)
    show ?thesis
    proof (cases "process_each p1 vs")
      case (Inl e)
      with Inr r i Cons.IH [OF len, of p1] show ?thesis by simp
    next
      case (Inr r2)
      obtain ss p2 where r2: "r2 = (ss, p2)" by (cases r2)
      from Inr r2 \<open>Next p v = Inr r\<close> r i Cons.IH [OF len, of p1] tk
      show ?thesis by simp
    qed
  qed
qed

lemma NextBatch_process_each: "NextBatch p values = process_each p values"
proof (cases "process_each p values")
  case (Inl e)
  then show ?thesis by (simp add: NextBatch_def NextBatch_loop_eq)
next
  case (Inr r)
  obtain ss p' where r: "r = (ss, p')" by (cases r)
  have "length ss = length values" using Inr r process_each_length by blast
  with Inr r show ?thesis by (simp add: NextBatch_def NextBatch_loop_eq)
qed

lemma process_each_total:
  assumes "Ready p"
  shows "\<exists>ss p'. process_each p values = Inr (ss, p') \<and> Ready p'"
  using assms
proof (induction "values" arbitrary: p)
  case Nil
  then show ?case by simp
next
  case (Cons v vs)
  from Next_total [OF Cons.prems, of v] obtain s p1 where
    n: "Next p v = Inr (s, p1)" and r: "Ready p1" by blast
  from Cons.IH [OF r] obtain ss p2 where "process_each p1 vs = Inr (ss, p2)" "Ready p2" by blast
  with n show ?case by simp
qed

lemma process_each_nth:
  assumes "process_each p values = Inr (ss, p')" and "i < length values"
  shows "\<exists>q q'. process_each p (take i values) = Inr (take i ss, q) \<and>
                Next q (values ! i) = Inr (ss ! i, q')"
  using assms
proof (induction "values" arbitrary: p ss i)
  case Nil
  then show ?case by simp
next
  case (Cons v vs)
  from Cons.prems(1) obtain s p1 ss1 where
    n: "Next p v = Inr (s, p1)" and rest: "process_each p1 vs = Inr (ss1, p')"
    and ss: "ss = s # ss1"
    by (auto split: sum.splits prod.splits)
  show ?case
  proof (cases i)
    case 0
    with n ss show ?thesis by simp
  next
    case (Suc j)
    then have "j < length vs" using Cons.prems(2) by simp
    from Cons.IH [OF rest this] obtain q q' where
      "process_each p1 (take j vs) = Inr (take j ss1, q)" "Next q (vs ! j) = Inr (ss1 ! j, q')"
      by blast
    with n ss Suc show ?thesis by simp
  qed
qed

lemma sqrt_two_fifths: "5 * sqrt (2 / 5) < 500"
proof -
  have "sqrt (2 / 5) \<le> 1" using real_sqrt_le_mono [of "2 / 5" 1] by simp
  then show ?thesis by linarith
qed

lemma process_each_seeded5:
  "\<exists>p'. process_each seeded5 [- 500, 0] = Inr ([SignalNegative, SignalNeutral], p')"
  using sqrt_two_fifths
  by (simp add: Next_def m_next_def Let_def seeded5_def go_sqrt_def)

subsection \<open>The scenario of a signal at influence 0\<close>

lemma stats_123: "mean_of [1, 2, 3] = 2" "pvariance [1, 2, 3] = 2 / 3"
  by (simp_all add: mean_of_def pvariance_def power2_eq_square)

lemma Initialize_seeded123:
  "Initialize NewPeakDetector 0 1 [1, 2, 3] = Inr (None, seeded123)"
  by (simp add: Initialize_nonempty stats_123 NewPeakDetector_def seeded123_def go_sqrt_def)

lemma Ready_seeded123: "Ready seeded123"
  by (simp add: Ready_def stats_ok_def seeded123_def stats_123 go_sqrt_def)

lemma sqrt_two_thirds: "sqrt (2 / 3) < 98"
proof -
  have "sqrt (2 / 3) \<le> 1" using real_sqrt_le_mono [of "2 / 3" 1] by simp
  then show ?thesis by linarith
qed

lemma Next_seeded123: "Next seeded123 100 = Inr (SignalPositive, after123)"
  using sqrt_two_thirds
  by (simp add: Next_def m_next_def Let_def seeded123_def after123_def go_sqrt_def)

lemma Next_seeded5: "\<exists>p'. Next seeded5 (- 500) = Inr (SignalNegative, p')"
  using sqrt_two_fifths
  by (simp add: Next_def m_next_def Let_def seeded5_def go_sqrt_def)

subsection \<open>Negating the seed and the stream\<close>

lemma sum_list_uminus: "sum_list (map uminus xs) = - sum_list (xs :: real list)"
  by (induction xs) simp_all

lemma mean_of_uminus: "mean_of (map uminus xs) = - mean_of xs"
  by (simp add: mean_of_def sum_list_uminus)

lemma sumsq_uminus:
  "(\<Sum>x\<leftarrow>map uminus xs. (x - (- c))\<^sup>2) = (\<Sum>x\<leftarrow>xs. (x - (c::real))\<^sup>2)"
proof (induction xs)
  case Nil
  then show ?case by simp
next
  case (Cons x xs)
  have "(- x + c)\<^sup>2 = (x - c)\<^sup>2" by (simp add: power2_eq_square algebra_simps)
  with Cons show ?case by simp
qed

lemma pvariance_uminus: "pvariance (map uminus xs) = pvariance xs"
  unfolding pvariance_def mean_of_uminus sumsq_uminus by simp

lemma mirror_New: "mirror NewPeakDetector = NewPeakDetector"
  by (simp add: mirror_def mirror_m_def NewPeakDetector_def)

lemma Initialize_mirror:
  assumes "vs \<noteq> []" and "Initialize p i t vs = Inr (None, p')"
  shows "Initialize (mirror p) i t (map uminus vs) = Inr (None, mirror p')"
proof -
  have ne: "map uminus vs \<noteq> []" using assms(1) by simp
  have p': "p' = p\<lparr>lag := length vs, influence := i, threshold := t,
            movingMeanStdDev :=
              (movingMeanStdDev p)\<lparr>cacheLenU := length vs, cacheLen := real (length vs),
                cache := vs, m_prevMean := mean_of vs, prevVariance := pvariance vs\<rparr>,
            prevMean := mean_of vs, prevStdDev := go_sqrt (pvariance vs),
            prevValue := last vs\<rparr>"
    using assms(2) unfolding Initialize_nonempty [OF assms(1)] by simp
  show ?thesis
    unfolding Initialize_nonempty [OF ne] p'
    using assms(1)
    by (simp add: mirror_def mirror_m_def mean_of_uminus pvariance_uminus last_map)
qed

lemma Ready_mirror:
  assumes "Ready p"
  shows "Ready (mirror p)"
  using assms
  by (simp add: Ready_def stats_ok_def mirror_def mirror_m_def mean_of_uminus pvariance_uminus)

lemma Next_threshold:
  assumes "Ready p" and "Next p v = Inr (s, p')"
  shows "threshold p' = threshold p"
  using assms(2) unfolding Next_Ready [OF assms(1)] by auto

lemma Next_mirror:
  assumes "Ready p" and "0 \<le> threshold p" and "Next p v = Inr (s, p')"
  shows "Next (mirror p) (- v) = Inr (opposite s, mirror p')"
proof -
  define m where "m = movingMeanStdDev p"
  define c where "c = cache m"
  define k where "k = m_index m"
  define ex where "ex \<longleftrightarrow> \<bar>v - mean_of c\<bar> > threshold p * sqrt (pvariance c)"
  define val where "val = (if ex then influence p * v + (1 - influence p) * prevValue p else v)"
  define c' where "c' = c[k := val]"
  define I where "I = (if (index p + 1) mod 2 ^ 64 = lag p then 0 else (index p + 1) mod 2 ^ 64)"
  define K where "K = (if k + 1 = length c then 0 else k + 1)"
  define sig where
    "sig = (if ex then (if v > mean_of c then SignalPositive else SignalNegative)
            else SignalNeutral)"
  have N1: "Next p v =
    Inr (sig,
         p\<lparr>index := I,
           movingMeanStdDev :=
             m\<lparr>cache := c', m_index := K, m_prevMean := mean_of c',
               prevVariance := pvariance c'\<rparr>,
           prevMean := mean_of c', prevStdDev := Some (sqrt (pvariance c')),
           prevValue := val\<rparr>)"
    unfolding sig_def I_def K_def c'_def val_def ex_def k_def c_def m_def
    by (rule Next_Ready [OF assms(1)])
  have s: "s = sig" and p': "p' = p\<lparr>index := I,
           movingMeanStdDev :=
             m\<lparr>cache := c', m_index := K, m_prevMean := mean_of c',
               prevVariance := pvariance c'\<rparr>,
           prevMean := mean_of c', prevStdDev := Some (sqrt (pvariance c')),
           prevValue := val\<rparr>"
    using assms(3) unfolding N1 by simp_all
  define q where "q = mirror p"
  define m2 where "m2 = movingMeanStdDev q"
  define c2 where "c2 = cache m2"
  define k2 where "k2 = m_index m2"
  define ex2 where "ex2 \<longleftrightarrow> \<bar>- v - mean_of c2\<bar> > threshold q * sqrt (pvariance c2)"
  define val2 where
    "val2 = (if ex2 then influence q * (- v) + (1 - influence q) * prevValue q else - v)"
  define c2' where "c2' = c2[k2 := val2]"
  define I2 where "I2 = (if (index q + 1) mod 2 ^ 64 = lag q then 0 else (index q + 1) mod 2 ^ 64)"
  define K2 where "K2 = (if k2 + 1 = length c2 then 0 else k2 + 1)"
  define sig2 where
    "sig2 = (if ex2 then (if - v > mean_of c2 then SignalPositive else SignalNegative)
             else SignalNeutral)"
  have rq: "Ready q" unfolding q_def by (rule Ready_mirror [OF assms(1)])
  have N2: "Next q (- v) =
    Inr (sig2,
         q\<lparr>index := I2,
           movingMeanStdDev :=
             m2\<lparr>cache := c2', m_index := K2, m_prevMean := mean_of c2',
               prevVariance := pvariance c2'\<rparr>,
           prevMean := mean_of c2', prevStdDev := Some (sqrt (pvariance c2')),
           prevValue := val2\<rparr>)"
    unfolding sig2_def I2_def K2_def c2'_def val2_def ex2_def k2_def c2_def m2_def
    by (rule Next_Ready [OF rq])
  have m2: "m2 = mirror_m m" by (simp add: m2_def q_def mirror_def m_def)
  have c2: "c2 = map uminus c" by (simp add: c2_def m2 mirror_m_def c_def)
  have k2: "k2 = k" by (simp add: k2_def m2 mirror_m_def k_def)
  have q: "threshold q = threshold p" "influence q = influence p"
    "prevValue q = - prevValue p" "index q = index p" "lag q = lag p"
    by (simp_all add: q_def mirror_def)
  have mu2: "mean_of c2 = - mean_of c" unfolding c2 by (rule mean_of_uminus)
  have var2: "pvariance c2 = pvariance c" unfolding c2 by (rule pvariance_uminus)
  have "\<bar>- v - - mean_of c\<bar> = \<bar>v - mean_of c\<bar>"
    using abs_minus_commute [of "- v" "- mean_of c"] by simp
  then have ex2: "ex2 = ex" unfolding ex2_def ex_def mu2 var2 q by simp
  have val2: "val2 = - val"
    unfolding val2_def val_def ex2 q by (simp add: algebra_simps)
  have c2': "c2' = map uminus c'"
    unfolding c2'_def c'_def c2 k2 val2 by (simp add: map_update)
  have mu2': "mean_of c2' = - mean_of c'" unfolding c2' by (rule mean_of_uminus)
  have var2': "pvariance c2' = pvariance c'" unfolding c2' by (rule pvariance_uminus)
  have I2: "I2 = I" unfolding I2_def I_def q ..
  have K2: "K2 = K" unfolding K2_def K_def k2 c2 by simp
  have sg: "0 \<le> threshold p * sqrt (pvariance c)"
    using assms(2) pvariance_nonneg [of c] by simp
  have sig2: "sig2 = opposite sig"
  proof (cases ex)
    case True
    then have "v \<noteq> mean_of c" using sg unfolding ex_def by auto
    then show ?thesis unfolding sig2_def sig_def ex2 mu2 using True by auto
  next
    case False
    then show ?thesis unfolding sig2_def sig_def ex2 by simp
  qed
  have state: "q\<lparr>index := I2,
           movingMeanStdDev :=
             m2\<lparr>cache := c2', m_index := K2, m_prevMean := mean_of c2',
               prevVariance := pvariance c2'\<rparr>,
           prevMean := mean_of c2', prevStdDev := Some (sqrt (pvariance c2')),
           prevValue := val2\<rparr> = mirror p'"
    unfolding p' I2 K2 mu2' var2' val2 m2 q_def
    by (simp add: mirror_def mirror_m_def m_def c2' mean_of_uminus pvariance_uminus)
  have "Next q (- v) = Inr (opposite s, mirror p')" using N2 unfolding sig2 state s .
  then show ?thesis unfolding q_def .
qed

lemma process_each_mirror:
  assumes "Ready p" and "0 \<le> threshold p" and "process_each p xs = Inr (ss, p')"
  shows "process_each (mirror p) (map uminus xs) = Inr (map opposite ss, mirror p')"
  using assms
proof (induction xs arbitrary: p ss)
  case Nil
  then show ?case by simp
next
  case (Cons x xs)
  from Cons.prems(3) obtain s p1 ss1 where
    n: "Next p x = Inr (s, p1)" and rest: "process_each p1 xs = Inr (ss1, p')"
    and ss: "ss = s # ss1"
    by (auto split: sum.splits prod.splits)
  have r1: "Ready p1" by (rule Ready_Next [OF Cons.prems(1) n])
  have t1: "0 \<le> threshold p1" using Next_threshold [OF Cons.prems(1) n] Cons.prems(2) by simp
  note step = Next_mirror [OF Cons.prems(1,2) n]
  note tail = Cons.IH [OF r1 t1 rest]
  show ?case by (simp add: step tail ss)
qed

lemma Initialize_tie_up: "Initialize NewPeakDetector 0 (- 1) [0, 2] = Inr (None, tie_up)"
  by (simp add: Initialize_nonempty NewPeakDetector_def tie_up_def go_sqrt_def mean_of_def
      pvariance_def)

lemma Initialize_tie_down: "Initialize NewPeakDetector 0 (- 1) [0, - 2] = Inr (None, tie_down)"
  by (simp add: Initialize_nonempty NewPeakDetector_def tie_down_def go_sqrt_def mean_of_def
      pvariance_def)

section \<open>The claims\<close>

text \<open>
  Claim C1. Seed the estimator with any non-empty sequence (its cursor being inside the
  new window, as it is for a new estimator, whose cursor is 0) and apply any finite sequence
  of updates: the seeding and every update return, the window keeps the length of the
  seed, the stored mean is the arithmetic mean of the window's contents, the stored variance
  is their population variance (divisor the window's length), and it is not negative.
\<close>

theorem SlidingStats_mean_variance_exact:
  assumes "vs \<noteq> []" and "m_index m0 < length vs"
  shows "\<exists>r m1 m2.
           m_initialize m0 vs = Inr (r, m1) \<and> cache m1 = vs \<and>
           m_updates m1 xs = Inr m2 \<and>
           length (cache m2) = length vs \<and>
           m_prevMean m2 = sum_list (cache m2) / real (length vs) \<and>
           prevVariance m2 =
             (\<Sum>x\<leftarrow>cache m2. (x - sum_list (cache m2) / real (length vs))\<^sup>2) / real (length vs) \<and>
           0 \<le> prevVariance m2"
proof -
  obtain r m1 where init: "m_initialize m0 vs = Inr (r, m1)"
    unfolding m_initialize_eq [OF assms(1)] by blast
  have c1: "cache m1 = vs" using init unfolding m_initialize_eq [OF assms(1)] by auto
  have ok1: "stats_ok m1" by (rule stats_ok_m_initialize [OF assms init])
  obtain m2 where upd: "m_updates m1 xs = Inr m2" and ok2: "stats_ok m2"
    and len: "length (cache m2) = length (cache m1)"
    using m_updates_ok [OF ok1, of xs] by blast
  have len2: "length (cache m2) = length vs" using len c1 by simp
  have mean: "m_prevMean m2 = sum_list (cache m2) / real (length vs)"
    using ok2 len2 by (simp add: stats_ok_def mean_of_def)
  have var: "prevVariance m2 =
      (\<Sum>x\<leftarrow>cache m2. (x - sum_list (cache m2) / real (length vs))\<^sup>2) / real (length vs)"
    using ok2 len2 by (simp add: stats_ok_def pvariance_def mean_of_def)
  have nonneg: "0 \<le> prevVariance m2"
    using ok2 pvariance_nonneg [of "cache m2"] by (simp add: stats_ok_def)
  from init c1 upd len2 mean var nonneg show ?thesis by blast
qed

theorem SlidingStats_mean_variance_exact_witness:
  "[0, 1, 0, - 1, 0] \<noteq> ([] :: real list) \<and>
   m_index (movingMeanStdDev NewPeakDetector) < length [0, 1, 0, - 1, 0 :: real] \<and>
   (\<exists>r m1 m2.
      m_initialize (movingMeanStdDev NewPeakDetector) [0, 1, 0, - 1, 0] = Inr (r, m1) \<and>
      m_updates m1 [4, 9] = Inr m2 \<and>
      length (cache m2) = 5 \<and>
      m_prevMean m2 = sum_list (cache m2) / 5 \<and>
      prevVariance m2 = (\<Sum>x\<leftarrow>cache m2. (x - sum_list (cache m2) / 5)\<^sup>2) / 5 \<and>
      0 \<le> prevVariance m2)"
proof -
  have h1: "[0, 1, 0, - 1, 0] \<noteq> ([] :: real list)" by simp
  have h2: "m_index (movingMeanStdDev NewPeakDetector) < length [0, 1, 0, - 1, 0 :: real]"
    by (simp add: NewPeakDetector_def)
  have l: "real (length [0, 1, 0, - 1, 0 :: real]) = 5" by simp
  have l': "length [0, 1, 0, - 1, 0 :: real] = 5" by simp
  note inst = SlidingStats_mean_variance_exact [OF h1 h2, of "[4, 9]", unfolded l, unfolded l']
  from inst have "\<exists>r m1 m2.
      m_initialize (movingMeanStdDev NewPeakDetector) [0, 1, 0, - 1, 0] = Inr (r, m1) \<and>
      m_updates m1 [4, 9] = Inr m2 \<and>
      length (cache m2) = 5 \<and>
      m_prevMean m2 = sum_list (cache m2) / 5 \<and>
      prevVariance m2 = (\<Sum>x\<leftarrow>cache m2. (x - sum_list (cache m2) / 5)\<^sup>2) / 5 \<and>
      0 \<le> prevVariance m2"
    by blast
  with h1 h2 show ?thesis by blast
qed



text \<open>
  Claim C3. \<^verbatim>\<open>Initialize\<close> returns the invalid-seed error exactly when the seed is
  empty; it returns no other error. On a non-empty seed it succeeds whatever the influence
  and the threshold are, the window is the seed (so its size is the seed's length), and the
  last folded value is the last value of the seed.
\<close>

theorem Initialize_InvalidSeed_iff_empty:
  "((\<exists>e p'. Initialize p i t vs = Inr (Some e, p') \<and> errors_Is e ErrInvalidInitialValues)
      \<longleftrightarrow> vs = []) \<and>
   ((\<exists>e p'. Initialize p i t vs = Inr (Some e, p')) \<longleftrightarrow> vs = []) \<and>
   (vs \<noteq> [] \<longrightarrow>
      (\<exists>p'. Initialize p i t vs = Inr (None, p') \<and>
            cache (movingMeanStdDev p') = vs \<and>
            cacheLenU (movingMeanStdDev p') = length vs \<and>
            lag p' = length vs \<and>
            prevValue p' = last vs \<and>
            influence p' = i \<and> threshold p' = t))"
proof (cases "vs = []")
  case True
  then show ?thesis by (simp add: Initialize_empty)
next
  case False
  then show ?thesis by (simp add: Initialize_nonempty)
qed

theorem Initialize_InvalidSeed_iff_empty_witness:
  "(\<exists>e p'. Initialize NewPeakDetector 2 (- 1) [] = Inr (Some e, p') \<and>
            errors_Is e ErrInvalidInitialValues) \<and>
   (\<exists>p'. Initialize NewPeakDetector 2 (- 1) [0, 1, 0, - 1, 0] = Inr (None, p') \<and>
         cache (movingMeanStdDev p') = [0, 1, 0, - 1, 0] \<and>
         cacheLenU (movingMeanStdDev p') = 5 \<and>
         lag p' = 5 \<and> prevValue p' = 0 \<and> influence p' = 2 \<and> threshold p' = - 1)"
  using Initialize_InvalidSeed_iff_empty [of NewPeakDetector 2 "- 1" "[]"]
    Initialize_InvalidSeed_iff_empty [of NewPeakDetector 2 "- 1" "[0, 1, 0, - 1, 0]"]
  by (simp add: eval_nat_numeral)

text \<open>
  Claim C4, as stated, fails. Seeded with \<open>[1, 2, 3]\<close>, threshold 1 and influence 0, the
  detector answers 100 with the positive signal, and the call replaces the oldest value of
  the window, 1, by the last folded value, 3: the window, its mean and its standard
  deviation all change.
\<close>

theorem signal_at_influence_0_moves_window:
  "Initialize NewPeakDetector 0 1 [1, 2, 3] = Inr (None, seeded123) \<and>
   Next seeded123 100 = Inr (SignalPositive, after123) \<and>
   cache (movingMeanStdDev seeded123) = [1, 2, 3] \<and>
   cache (movingMeanStdDev after123) = [3, 2, 3] \<and>
   prevMean seeded123 = 2 \<and> prevMean after123 = 8 / 3 \<and>
   prevStdDev seeded123 = Some (sqrt (2 / 3)) \<and> prevStdDev after123 = Some (sqrt (2 / 9)) \<and>
   sqrt (2 / 3) \<noteq> sqrt (2 / 9)"
  by (simp add: Initialize_seeded123 Next_seeded123) (simp add: seeded123_def after123_def)

text \<open>
  Claim C4, amended. At influence 0 a call that emits a signal folds the last folded value
  in, not the value it was given: the last folded value stays, and the slot at the cursor
  receives it. The window is unchanged by the call exactly when the value evicted equals the
  last folded value, and in that case the mean and the variance held by the estimator are
  unchanged as well and the detector holds that mean and the square root of that variance.
  Nothing is assumed of the statistics held: the statement does not rest on exact
  arithmetic.
\<close>

theorem signal_at_influence_0_folds_last_value:
  assumes "m_index (movingMeanStdDev p) < length (cache (movingMeanStdDev p))"
    and "influence p = 0"
    and "Next p v = Inr (s, p')" and "s \<noteq> SignalNeutral"
  shows "prevValue p' = prevValue p \<and>
         cache (movingMeanStdDev p') =
           (cache (movingMeanStdDev p))[m_index (movingMeanStdDev p) := prevValue p] \<and>
         (cache (movingMeanStdDev p') = cache (movingMeanStdDev p)
            \<longleftrightarrow> cache (movingMeanStdDev p) ! m_index (movingMeanStdDev p) = prevValue p) \<and>
         (cache (movingMeanStdDev p) ! m_index (movingMeanStdDev p) = prevValue p
            \<longrightarrow> m_prevMean (movingMeanStdDev p') = m_prevMean (movingMeanStdDev p) \<and>
                prevVariance (movingMeanStdDev p') = prevVariance (movingMeanStdDev p) \<and>
                prevMean p' = m_prevMean (movingMeanStdDev p) \<and>
                prevStdDev p' = go_sqrt (prevVariance (movingMeanStdDev p)))"
proof -
  define m where "m = movingMeanStdDev p"
  define c where "c = cache m"
  define k where "k = m_index m"
  have k: "k < length c" using assms(1) by (simp add: c_def k_def m_def)
  obtain sd where sd: "prevStdDev p = Some sd" and ex: "\<bar>v - prevMean p\<bar> > threshold p * sd"
    using assms(3,4) k
    by (cases "prevStdDev p")
      (auto simp: Next_def Let_def m_next_def c_def k_def m_def split: if_splits)
  have p': "p' = (if (index p + 1) mod 2 ^ 64 = lag p then p\<lparr>index := 0\<rparr>
                  else p\<lparr>index := (index p + 1) mod 2 ^ 64\<rparr>)
     \<lparr>movingMeanStdDev :=
        (if k + 1 = cacheLenU m then m\<lparr>cache := c[k := prevValue p], m_index := 0\<rparr>
         else m\<lparr>cache := c[k := prevValue p], m_index := k + 1\<rparr>)
        \<lparr>prevVariance := prevVariance m
           + (prevValue p - (m_prevMean m + (prevValue p - c ! k) / cacheLen m) + c ! k
              - m_prevMean m) * (prevValue p - c ! k) / cacheLen m,
         m_prevMean := m_prevMean m + (prevValue p - c ! k) / cacheLen m\<rparr>,
      prevMean := m_prevMean m + (prevValue p - c ! k) / cacheLen m,
      prevStdDev := go_sqrt (prevVariance m
           + (prevValue p - (m_prevMean m + (prevValue p - c ! k) / cacheLen m) + c ! k
              - m_prevMean m) * (prevValue p - c ! k) / cacheLen m),
      prevValue := prevValue p\<rparr>"
    using assms(3) assms(2) k sd ex
    by (auto simp: Next_def Let_def m_next_def c_def k_def m_def)
  have pv: "prevValue p' = prevValue p" unfolding p' by simp
  have c': "cache (movingMeanStdDev p') = c[k := prevValue p]" unfolding p' by simp
  have same: "c[k := prevValue p] = c \<longleftrightarrow> c ! k = prevValue p"
    using k by (simp add: list_update_same_conv)
  have keep: "c ! k = prevValue p \<longrightarrow>
      m_prevMean (movingMeanStdDev p') = m_prevMean m \<and>
      prevVariance (movingMeanStdDev p') = prevVariance m \<and>
      prevMean p' = m_prevMean m \<and> prevStdDev p' = go_sqrt (prevVariance m)"
    unfolding p' by simp
  show ?thesis using pv c' same keep unfolding c_def k_def m_def by simp
qed

theorem signal_at_influence_0_folds_last_value_witness:
  "m_index (movingMeanStdDev seeded123) < length (cache (movingMeanStdDev seeded123)) \<and>
   influence seeded123 = 0 \<and>
   Next seeded123 100 = Inr (SignalPositive, after123) \<and> SignalPositive \<noteq> SignalNeutral \<and>
   prevValue after123 = prevValue seeded123 \<and>
   cache (movingMeanStdDev after123) = (cache (movingMeanStdDev seeded123))[0 := 3] \<and>
   cache (movingMeanStdDev after123) \<noteq> cache (movingMeanStdDev seeded123) \<and>
   m_index (movingMeanStdDev seeded5) < length (cache (movingMeanStdDev seeded5)) \<and>
   influence seeded5 = 0 \<and>
   (\<exists>p'. Next seeded5 (- 500) = Inr (SignalNegative, p') \<and>
         cache (movingMeanStdDev seeded5) ! m_index (movingMeanStdDev seeded5)
           = prevValue seeded5 \<and>
         cache (movingMeanStdDev p') = cache (movingMeanStdDev seeded5) \<and>
         prevMean p' = prevMean seeded5 \<and> prevStdDev p' = prevStdDev seeded5)"
proof -
  have h1: "m_index (movingMeanStdDev seeded123) < length (cache (movingMeanStdDev seeded123))"
    by (simp add: seeded123_def)
  have h2: "influence seeded123 = 0" by (simp add: seeded123_def)
  have h4: "SignalPositive \<noteq> SignalNeutral" by simp
  note t = signal_at_influence_0_folds_last_value [OF h1 h2 Next_seeded123 h4]
  have old: "cache (movingMeanStdDev seeded123) ! m_index (movingMeanStdDev seeded123)
               \<noteq> prevValue seeded123"
    by (simp add: seeded123_def)
  have "prevValue after123 = prevValue seeded123" using t by blast
  moreover have "cache (movingMeanStdDev after123) = (cache (movingMeanStdDev seeded123))[0 := 3]"
    using t by (simp add: seeded123_def)
  moreover have "cache (movingMeanStdDev after123) \<noteq> cache (movingMeanStdDev seeded123)"
    using t old by blast
  ultimately have first: "m_index (movingMeanStdDev seeded123)
       < length (cache (movingMeanStdDev seeded123)) \<and>
   influence seeded123 = 0 \<and>
   Next seeded123 100 = Inr (SignalPositive, after123) \<and> SignalPositive \<noteq> SignalNeutral \<and>
   prevValue after123 = prevValue seeded123 \<and>
   cache (movingMeanStdDev after123) = (cache (movingMeanStdDev seeded123))[0 := 3] \<and>
   cache (movingMeanStdDev after123) \<noteq> cache (movingMeanStdDev seeded123)"
    using h1 h2 Next_seeded123 h4 by blast
  have g1: "m_index (movingMeanStdDev seeded5) < length (cache (movingMeanStdDev seeded5))"
    by (simp add: seeded5_def)
  have g2: "influence seeded5 = 0" by (simp add: seeded5_def)
  have g4: "SignalNegative \<noteq> SignalNeutral" by simp
  obtain p' where n: "Next seeded5 (- 500) = Inr (SignalNegative, p')"
    using Next_seeded5 by blast
  note u = signal_at_influence_0_folds_last_value [OF g1 g2 n g4]
  have same: "cache (movingMeanStdDev seeded5) ! m_index (movingMeanStdDev seeded5)
               = prevValue seeded5"
    by (simp add: seeded5_def)
  have stored: "m_prevMean (movingMeanStdDev seeded5) = prevMean seeded5"
    "go_sqrt (prevVariance (movingMeanStdDev seeded5)) = prevStdDev seeded5"
    by (simp_all add: seeded5_def go_sqrt_def)
  have "cache (movingMeanStdDev p') = cache (movingMeanStdDev seeded5)"
    "prevMean p' = prevMean seeded5" "prevStdDev p' = prevStdDev seeded5"
    using u same stored by auto
  with n same have second: "\<exists>p'. Next seeded5 (- 500) = Inr (SignalNegative, p') \<and>
         cache (movingMeanStdDev seeded5) ! m_index (movingMeanStdDev seeded5)
           = prevValue seeded5 \<and>
         cache (movingMeanStdDev p') = cache (movingMeanStdDev seeded5) \<and>
         prevMean p' = prevMean seeded5 \<and> prevStdDev p' = prevStdDev seeded5"
    by blast
  from first second g1 g2 show ?thesis by blast
qed

text \<open>
  Claim C5, as stated, fails: \<^verbatim>\<open>Initialize\<close> assigns \<open>lag\<close> before it tests the
  length, so a detector that was seeded with five values and is then given the empty seed
  comes back with \<open>lag = 0\<close> instead of 5.
\<close>

theorem failed_Initialize_changes_lag:
  "Initialize NewPeakDetector 0 5 [0, 1, 0, - 1, 0] = Inr (None, seeded5) \<and>
   Initialize seeded5 0 5 [] =
     Inr (Some (Errorf_w
       ''the length of the initial values is zero, the length is used as the lag for the algorithm: ''
       ErrInvalidInitialValues), seeded5\<lparr>lag := 0\<rparr>) \<and>
   lag seeded5 = 5 \<and> seeded5\<lparr>lag := 0\<rparr> \<noteq> seeded5"
  by (simp add: Initialize_seeded5 Initialize_empty) (simp add: seeded5_def)

text \<open>
  Claim C5, amended. A call of \<^verbatim>\<open>Initialize\<close> that fails with the invalid-seed error
  leaves every field other than \<open>lag\<close> as it was: the window, the cursor, the mean and
  variance, the influence, the threshold and the last folded value. A detector that was
  never initialized is left exactly as it was.
\<close>

theorem failed_Initialize_keeps_other_fields:
  "\<exists>e p'. Initialize p i t [] = Inr (Some e, p') \<and>
          errors_Is e ErrInvalidInitialValues \<and>
          p'\<lparr>lag := lag p\<rparr> = p \<and>
          Initialize NewPeakDetector i t [] = Inr (Some e, NewPeakDetector)"
  by (simp add: Initialize_empty) (simp add: NewPeakDetector_def)

text \<open>
  Claim C6, as stated, fails: \<^verbatim>\<open>next\<close> passes the variance to \<^verbatim>\<open>math.Sqrt\<close>
  as it is. On an estimator whose stored variance is negative, an update that leaves it
  negative returns NaN, not the square root of the variance clamped at zero.
\<close>

theorem m_next_does_not_clamp:
  "m_next drifted 1 = Inr ((1, None), drifted) \<and>
   go_sqrt (prevVariance drifted) \<noteq> Some (sqrt (max (prevVariance drifted) 0))"
  by (simp add: m_next_def drifted_def Let_def go_sqrt_def)

text \<open>
  Claim C6, amended. An update whose cursor is inside the window returns; it replaces
  exactly the value at the cursor, advances the cursor modulo the window's length, applies
  the recurrence to the mean and the variance, and returns the new mean with the square
  root of the new variance, unclamped: NaN when the new variance is negative, and
  otherwise the square root, which then equals that of the variance clamped at zero.
\<close>

theorem m_next_recurrence:
  assumes "m_index m < length (cache m)" and "cacheLenU m = length (cache m)"
  shows "\<exists>mean sd m'.
           m_next m v = Inr ((mean, sd), m') \<and>
           cache m' = (cache m)[m_index m := v] \<and>
           m_index m' = (m_index m + 1) mod length (cache m) \<and>
           cacheLen m' = cacheLen m \<and> cacheLenU m' = cacheLenU m \<and>
           m_prevMean m' = m_prevMean m + (v - cache m ! m_index m) / cacheLen m \<and>
           prevVariance m' =
             prevVariance m
             + (v - m_prevMean m' + cache m ! m_index m - m_prevMean m)
               * (v - cache m ! m_index m) / cacheLen m \<and>
           mean = m_prevMean m' \<and>
           sd = (if prevVariance m' < 0 then None
                 else Some (sqrt (max (prevVariance m') 0)))"
proof -
  have idx: "(if m_index m + 1 = length (cache m) then 0 else m_index m + 1)
               = (m_index m + 1) mod length (cache m)"
    using assms(1) by (simp add: mod_Suc)
  show ?thesis
    using assms idx by (simp add: m_next_def Let_def go_sqrt_def max_def)
qed

theorem m_next_recurrence_witness:
  "m_index (movingMeanStdDev seeded5) < length (cache (movingMeanStdDev seeded5)) \<and>
   cacheLenU (movingMeanStdDev seeded5) = length (cache (movingMeanStdDev seeded5)) \<and>
   (\<exists>m'. m_next (movingMeanStdDev seeded5) 5
            = Inr ((1, Some (sqrt (max (prevVariance m') 0))), m') \<and>
         cache m' = [5, 1, 0, - 1, 0] \<and> m_index m' = 1 \<and> m_prevMean m' = 1 \<and>
         prevVariance m' = 22 / 5)"
proof -
  define m where "m = movingMeanStdDev seeded5"
  have m: "cache m = [0, 1, 0, - 1, 0]" "m_index m = 0" "cacheLen m = 5" "cacheLenU m = 5"
    "m_prevMean m = 0" "prevVariance m = 2 / 5"
    by (simp_all add: m_def seeded5_def)
  have h1: "m_index m < length (cache m)" by (simp add: m)
  have h2: "cacheLenU m = length (cache m)" by (simp add: m)
  from m_next_recurrence [OF h1 h2, of 5] obtain mean sd m' where
    r: "m_next m 5 = Inr ((mean, sd), m')" and c: "cache m' = (cache m)[m_index m := 5]"
    and i: "m_index m' = (m_index m + 1) mod length (cache m)"
    and mu: "m_prevMean m' = m_prevMean m + (5 - cache m ! m_index m) / cacheLen m"
    and var: "prevVariance m' = prevVariance m
             + (5 - m_prevMean m' + cache m ! m_index m - m_prevMean m)
               * (5 - cache m ! m_index m) / cacheLen m"
    and mean: "mean = m_prevMean m'"
    and sd: "sd = (if prevVariance m' < 0 then None else Some (sqrt (max (prevVariance m') 0)))"
    by blast
  have mu': "m_prevMean m' = 1" using mu by (simp add: m)
  have var': "prevVariance m' = 22 / 5" using var unfolding mu' by (simp add: m)
  have "cache m' = [5, 1, 0, - 1, 0]" "m_index m' = 1" using c i by (simp_all add: m)
  moreover have "m_next m 5 = Inr ((1, Some (sqrt (max (prevVariance m') 0))), m')"
    using r mean sd mu' var' by simp
  ultimately show ?thesis using h1 h2 mu' var' unfolding m_def by blast
qed

text \<open>
  Claim C7. On a ready detector \<^verbatim>\<open>NextBatch\<close> returns; its signals and its final state
  are those of calling \<^verbatim>\<open>Next\<close> on each value in order, there is one signal per
  value, and the signal at position \<open>i\<close> is the one that \<^verbatim>\<open>Next\<close> returns for the
  value at position \<open>i\<close> in the state the first \<open>i\<close> calls leave.
\<close>

theorem NextBatch_is_sequential_Next:
  assumes "Ready p"
  shows "\<exists>ss p'.
           NextBatch p values = Inr (ss, p') \<and>
           process_each p values = Inr (ss, p') \<and>
           length ss = length values \<and>
           (\<forall>i < length values.
              \<exists>q q'. process_each p (take i values) = Inr (take i ss, q) \<and>
                     Next q (values ! i) = Inr (ss ! i, q'))"
proof -
  from process_each_total [OF assms, of "values"] obtain ss p' where
    pe: "process_each p values = Inr (ss, p')" by blast
  have "NextBatch p values = Inr (ss, p')" using pe by (simp add: NextBatch_process_each)
  moreover have "length ss = length values" using pe by (rule process_each_length)
  moreover have "\<forall>i < length values.
              \<exists>q q'. process_each p (take i values) = Inr (take i ss, q) \<and>
                     Next q (values ! i) = Inr (ss ! i, q')"
    using process_each_nth [OF pe] by blast
  ultimately show ?thesis using pe by blast
qed

theorem NextBatch_is_sequential_Next_witness:
  "Ready seeded5 \<and>
   (\<exists>ss p'. NextBatch seeded5 [- 500, 0] = Inr (ss, p') \<and>
            process_each seeded5 [- 500, 0] = Inr (ss, p') \<and>
            ss = [SignalNegative, SignalNeutral])"
proof -
  from NextBatch_is_sequential_Next [OF Ready_seeded5, of "[- 500, 0]"] obtain ss p' where
    nb: "NextBatch seeded5 [- 500, 0] = Inr (ss, p')"
    and pe: "process_each seeded5 [- 500, 0] = Inr (ss, p')"
    by blast
  from pe process_each_seeded5 have "ss = [SignalNegative, SignalNeutral]" by auto
  with nb pe Ready_seeded5 show ?thesis by blast
qed

text \<open>
  Claim C8, as stated, fails for a negative threshold, which \<^verbatim>\<open>Initialize\<close> accepts.
  With threshold \<open>-1\<close> a value equal to the mean is a signal, and the branch that is
  not "above the mean" makes it negative; its negation equals the negated mean and is
  negative as well. Seeds \<open>[0, 2]\<close> and \<open>[0, -2]\<close>, values \<open>1\<close> and \<open>-1\<close>.
\<close>

theorem negative_threshold_breaks_symmetry:
  "Initialize NewPeakDetector 0 (- 1) [0, 2] = Inr (None, tie_up) \<and>
   Initialize NewPeakDetector 0 (- 1) (map uminus [0, 2]) = Inr (None, tie_down) \<and>
   map_sum id fst (Next tie_up 1) = Inr SignalNegative \<and>
   map_sum id fst (Next tie_down (- 1)) = Inr SignalNegative \<and>
   opposite SignalNegative \<noteq> SignalNegative"
  by (simp add: Initialize_tie_up Initialize_tie_down)
    (simp add: Next_def m_next_def Let_def tie_up_def tie_down_def)

text \<open>
  Claim C8, amended. For every influence, every threshold that is not negative, every
  non-empty seed and every stream: seed one new detector with the seed and another with the
  negated seed, feed the stream to the first and the negated stream to the second, by
  \<^verbatim>\<open>Next\<close> value by value or by \<^verbatim>\<open>NextBatch\<close>. Both return, and the signals of the
  second are the opposites of the signals of the first, position by position.
\<close>

theorem negated_stream_opposite_signals:
  assumes "0 \<le> t" and "vs \<noteq> []"
  shows "\<exists>p q ss p' q'.
           Initialize NewPeakDetector i t vs = Inr (None, p) \<and>
           Initialize NewPeakDetector i t (map uminus vs) = Inr (None, q) \<and>
           process_each p xs = Inr (ss, p') \<and>
           process_each q (map uminus xs) = Inr (map opposite ss, q') \<and>
           NextBatch p xs = Inr (ss, p') \<and>
           NextBatch q (map uminus xs) = Inr (map opposite ss, q')"
proof -
  obtain p where p: "Initialize NewPeakDetector i t vs = Inr (None, p)"
    by (simp add: Initialize_nonempty [OF assms(2)])
  have "m_index (movingMeanStdDev NewPeakDetector) < length vs"
    using assms(2) by (simp add: NewPeakDetector_def)
  then have rp: "Ready p" by (rule Ready_Initialize [OF assms(2) _ p])
  have tp: "0 \<le> threshold p"
    using p assms(1) unfolding Initialize_nonempty [OF assms(2)] by auto
  have q: "Initialize NewPeakDetector i t (map uminus vs) = Inr (None, mirror p)"
    using Initialize_mirror [OF assms(2) p] by (simp add: mirror_New)
  obtain ss p' where pe: "process_each p xs = Inr (ss, p')"
    using process_each_total [OF rp] by blast
  note pm = process_each_mirror [OF rp tp pe]
  from p q pe pm show ?thesis by (auto simp: NextBatch_process_each)
qed

theorem negated_stream_opposite_signals_witness:
  "(0::real) \<le> 5 \<and> [0, 1, 0, - 1, 0] \<noteq> ([] :: real list) \<and>
   (\<exists>p q p' q'.
      Initialize NewPeakDetector 0 5 [0, 1, 0, - 1, 0] = Inr (None, p) \<and>
      Initialize NewPeakDetector 0 5 [0, - 1, 0, 1, 0] = Inr (None, q) \<and>
      process_each p [- 500, 0] = Inr ([SignalNegative, SignalNeutral], p') \<and>
      process_each q [500, 0] = Inr ([SignalPositive, SignalNeutral], q'))"
proof -
  have h1: "(0::real) \<le> 5" by simp
  have h2: "[0, 1, 0, - 1, 0] \<noteq> ([] :: real list)" by simp
  from negated_stream_opposite_signals [OF h1 h2, of 0 "[- 500, 0]"] obtain p q ss p' q' where
    p: "Initialize NewPeakDetector 0 5 [0, 1, 0, - 1, 0] = Inr (None, p)"
    and q: "Initialize NewPeakDetector 0 5 (map uminus [0, 1, 0, - 1, 0]) = Inr (None, q)"
    and pe: "process_each p [- 500, 0] = Inr (ss, p')"
    and qe: "process_each q (map uminus [- 500, 0]) = Inr (map opposite ss, q')"
    by blast
  have "p = seeded5" using p Initialize_seeded5 by simp
  with pe process_each_seeded5 have ss: "ss = [SignalNegative, SignalNeutral]" by auto
  have q': "Initialize NewPeakDetector 0 5 [0, - 1, 0, 1, 0] = Inr (None, q)" using q by simp
  have qe': "process_each q [500, 0] = Inr ([SignalPositive, SignalNeutral], q')"
    using qe ss by simp
  from h1 h2 p q' pe qe' ss show ?thesis by blast
qed

text \<open>
  Claim C9. Seeded with \<open>[0, 1, 0, -1, 0]\<close>, threshold 5 and influence 0, the detector
  answers the value \<open>-500\<close> with the negative signal.
\<close>

theorem negative_signal_scenario:
  "\<exists>p p'. Initialize NewPeakDetector 0 5 [0, 1, 0, - 1, 0] = Inr (None, p) \<and>
           Next p (- 500) = Inr (SignalNegative, p')"
proof -
  have "sqrt (2 / 5) \<le> 1" using real_sqrt_le_mono [of "2 / 5" 1] by simp
  then have "5 * sqrt (2 / 5) < 500" by linarith
  then have "\<exists>p'. Next seeded5 (- 500) = Inr (SignalNegative, p')"
    by (simp add: Next_def Let_def m_next_def seeded5_def)
  then show ?thesis using Initialize_seeded5 by blast
qed

text \<open>
  Claim C10. \<^verbatim>\<open>Initialize\<close> does not reset the cursor of the estimator. Seed a new
  detector with two values, process one value (the cursor is now 1) and seed it again with
  a single value: the second \<^verbatim>\<open>Initialize\<close> succeeds, the cursor is still 1 and lies
  outside the window of length 1, and every following \<^verbatim>\<open>Next\<close> (and every non-empty
  \<^verbatim>\<open>NextBatch\<close>) panics on the index, whereas a new detector seeded with the same
  single value answers every value.
\<close>

theorem reinitialize_keeps_cursor:
  "\<exists>p1 s p2 p3 q.
     Initialize NewPeakDetector 0 5 [1, 2] = Inr (None, p1) \<and>
     Next p1 2 = Inr (s, p2) \<and>
     Initialize p2 0 5 [7] = Inr (None, p3) \<and>
     m_index (movingMeanStdDev p3) = 1 \<and>
     length (cache (movingMeanStdDev p3)) = 1 \<and>
     (\<forall>v. Next p3 v = Inl IndexOutOfRange) \<and>
     (\<forall>vs. NextBatch p3 (7 # vs) = Inl IndexOutOfRange) \<and>
     Initialize NewPeakDetector 0 5 [7] = Inr (None, q) \<and>
     (\<forall>v. \<exists>s' q'. Next q v = Inr (s', q'))"
proof -
  obtain p1 where p1: "Initialize NewPeakDetector 0 5 [1, 2] = Inr (None, p1)"
    and r1: "Ready p1"
    using Initialize_nonempty [of "[1, 2]" NewPeakDetector 0 5]
      Ready_Initialize [of "[1, 2]" NewPeakDetector 0 5]
    by (simp add: NewPeakDetector_def)
  have i1: "m_index (movingMeanStdDev p1) = 0" "length (cache (movingMeanStdDev p1)) = 2"
    using p1 unfolding Initialize_nonempty [of "[1, 2]" NewPeakDetector 0 5, simplified]
    by (auto simp: NewPeakDetector_def)
  obtain s p2 where p2: "Next p1 2 = Inr (s, p2)" using Next_total [OF r1] by blast
  have i2: "m_index (movingMeanStdDev p2) = 1"
    using p2 i1 unfolding Next_Ready [OF r1] by auto
  obtain p3 where p3: "Initialize p2 0 5 [7] = Inr (None, p3)"
    by (simp add: Initialize_nonempty)
  have i3: "m_index (movingMeanStdDev p3) = 1" "length (cache (movingMeanStdDev p3)) = 1"
    using p3 i2 by (auto simp: Initialize_nonempty)
  have panic: "Next p3 v = Inl IndexOutOfRange" for v
    using i3 by (simp add: Next_def Let_def m_next_def)
  have panic': "NextBatch p3 (7 # vs) = Inl IndexOutOfRange" for vs
    by (simp add: NextBatch_process_each panic)
  obtain q where q: "Initialize NewPeakDetector 0 5 [7] = Inr (None, q)"
    by (simp add: Initialize_nonempty)
  have "Ready q"
    by (rule Ready_Initialize [OF _ _ q]) (simp_all add: NewPeakDetector_def)
  then have fresh: "\<exists>s' q'. Next q v = Inr (s', q')" for v
    using Next_total by blast
  from p1 p2 p3 i3 panic panic' q fresh show ?thesis by blast
qed

end
